theory Spec2Isabelle
  imports Complex_Main "HOL-Library.Sublist"
begin

section \<open>Stream assembler (ChatPanel.handleSend, StudioPanel.handleAction)\<close>

subsection \<open>String primitives of the runtime\<close>

text \<open>
  The text that \<^verbatim>\<open>decoder.decode(value, { stream: true })\<close> returns for each chunk is a
  \<^typ>\<open>string\<close>; a \<^typ>\<open>char\<close> stands for a code unit below 256, so that \<open>0xA0\<close> is the
  no-break space, the one further character below 256 that \<^verbatim>\<open>trim\<close> and \<^verbatim>\<open>\s\<close> take
  for white space. The decoder itself is outside the model: a chunk here is decoded text.
  The functions below are the string methods the read loop calls: \<^verbatim>\<open>indexOf\<close>, \<^verbatim>\<open>startsWith\<close>, \<^verbatim>\<open>endsWith\<close>,
  \<^verbatim>\<open>trim\<close>; \<^verbatim>\<open>slice(0, n)\<close> is \<^const>\<open>take\<close>, \<^verbatim>\<open>slice(n)\<close> is \<^const>\<open>drop\<close> and
  \<^verbatim>\<open>slice(0, -1)\<close> is \<^const>\<open>butlast\<close>.
\<close>

definition LF :: char where
  "LF = CHR 0x0A"

definition CR :: char where
  "CR = CHR 0x0D"

fun indexOf :: "char \<Rightarrow> string \<Rightarrow> nat option" where
  "indexOf c [] = None"
| "indexOf c (x # xs) = (if x = c then Some 0 else map_option Suc (indexOf c xs))"

definition startsWith :: "string \<Rightarrow> string \<Rightarrow> bool" where
  "startsWith s p = (take (length p) s = p)"

definition endsWith :: "string \<Rightarrow> string \<Rightarrow> bool" where
  "endsWith s p = (length p \<le> length s \<and> drop (length s - length p) s = p)"

definition isSpace :: "char \<Rightarrow> bool" where
  "isSpace c = (c \<in> {CHR 0x09, CHR 0x0A, CHR 0x0B, CHR 0x0C, CHR 0x0D, CHR 0x20, CHR 0xA0})"

definition trim :: "string \<Rightarrow> string" where
  "trim s = rev (dropWhile isSpace (rev (dropWhile isSpace s)))"

subsection \<open>The payload reader\<close>

text \<open>
  \<^verbatim>\<open>JSON.parse(json).choices?.[0]?.delta?.content\<close> belongs to the runtime, so the loop
  takes it as a parameter \<open>parse\<close>. Its outcome at a payload is one of: the expression
  throws (a syntax error of \<^verbatim>\<open>JSON.parse\<close>, or a property read on \<^verbatim>\<open>null\<close>); it yields
  a falsy value (absent, \<^verbatim>\<open>null\<close>, the empty string); or it yields a truthy value, kept as
  the text that \<^verbatim>\<open>assistantContent += c\<close> appends.
\<close>

datatype delta = Throws | Falsy | Content string

text \<open>How the inner \<^verbatim>\<open>while\<close> loop is left: its condition fails, or one of its two
  \<^verbatim>\<open>break\<close> statements runs.\<close>

datatype loop_exit = Exhausted | Sentinel | Rebuffered

record assembler =
  buf :: string
  assistantContent :: string
  emitted :: "string list"

text \<open>
  The three steps on an extracted line:
  \<^verbatim>\<open>if (line.endsWith("\r")) line = line.slice(0, -1)\<close>, the test of the \<^verbatim>\<open>continue\<close>
  statement, and \<^verbatim>\<open>line.slice(6).trim()\<close>.
\<close>

definition stripCR :: "string \<Rightarrow> string" where
  "stripCR line = (if endsWith line [CR] then butlast line else line)"

definition ignored :: "string \<Rightarrow> bool" where
  "ignored line = (\<not> startsWith line ''data: '' \<or> startsWith line '':'' \<or> trim line = [])"

definition payload :: "string \<Rightarrow> string" where
  "payload line = trim (drop 6 line)"

text \<open>
  The inner loop
  \<^verbatim>\<open>while ((nl = buf.indexOf("\n")) !== -1) { ... }\<close>.
  Every \<^verbatim>\<open>setMessages\<close> / \<^verbatim>\<open>setGeneratedContent\<close> call is recorded in \<^const>\<open>emitted\<close>,
  oldest first.
\<close>

function lines_loop :: "(string \<Rightarrow> delta) \<Rightarrow> assembler \<Rightarrow> loop_exit \<times> assembler" where
  "lines_loop parse s =
     (case indexOf LF (buf s) of
        None \<Rightarrow> (Exhausted, s)
      | Some nl \<Rightarrow>
          (let line = stripCR (take nl (buf s));
               s1 = s\<lparr>buf := drop (nl + 1) (buf s)\<rparr>
           in if ignored line then lines_loop parse s1
              else if payload line = ''[DONE]'' then (Sentinel, s1)
              else
                (case parse (payload line) of
                   Throws \<Rightarrow> (Rebuffered, s1\<lparr>buf := line @ [LF] @ buf s1\<rparr>)
                 | Falsy \<Rightarrow> lines_loop parse s1
                 | Content c \<Rightarrow>
                     lines_loop parse
                       (s1\<lparr>assistantContent := assistantContent s1 @ c,
                           emitted := emitted s1 @ [assistantContent s1 @ c]\<rparr>))))"
  by pat_completeness auto
termination
proof -
  have found: "n < length xs" if "indexOf c xs = Some n" for c :: char and xs n
    using that by (induction xs arbitrary: n) (auto split: if_splits)
  show ?thesis
    by (relation "measure (\<lambda>(parse, s). length (buf s))") (auto dest: found)
qed

declare lines_loop.simps [simp del]

text \<open>
  The outer loop \<^verbatim>\<open>while (true) { read; if (done) break; buf += chunk; ... }\<close> over the
  chunks the reader delivers before it reports \<^verbatim>\<open>done\<close>.
\<close>

fun read_loop :: "(string \<Rightarrow> delta) \<Rightarrow> string list \<Rightarrow> assembler \<Rightarrow> assembler" where
  "read_loop parse [] s = s"
| "read_loop parse (chunk # chunks) s =
     read_loop parse chunks (snd (lines_loop parse (s\<lparr>buf := buf s @ chunk\<rparr>)))"

definition start :: assembler where
  "start = \<lparr>buf = [], assistantContent = [], emitted = []\<rparr>"

definition assemble :: "(string \<Rightarrow> delta) \<Rightarrow> string list \<Rightarrow> assembler" where
  "assemble parse chunks = read_loop parse chunks start"

subsection \<open>A reader for the canonical envelope\<close>

text \<open>
  To run the loop on concrete wire text a payload reader is needed. \<open>canonical_delta\<close>
  reads exactly the envelope of the wire format,
  \<^verbatim>\<open>{"choices":[{"delta":{"content":"<text>"}}]}\<close>, with a \<^verbatim>\<open><text>\<close> free of quotes,
  backslashes and control characters, and treats every other payload as one that throws.
  On the envelope, and on text that is not the start of a JSON value or is cut off inside
  one, this is what \<^verbatim>\<open>JSON.parse(json).choices?.[0]?.delta?.content\<close> gives; it is used
  at such payloads only. The general theorems hold for every reader.
\<close>

definition envelope_open :: string where
  \<open>envelope_open = ''{"choices":[{"delta":{"content":"''\<close>

definition envelope_close :: string where
  \<open>envelope_close = ''"}}]}''\<close>

definition plainChar :: "char \<Rightarrow> bool" where
  \<open>plainChar c = (c \<noteq> CHR ''"'' \<and> c \<noteq> CHR 0x5C \<and> 32 \<le> (of_char c :: nat))\<close>

definition canonical_delta :: "string \<Rightarrow> delta" where
  "canonical_delta json =
     (if startsWith json envelope_open \<and> endsWith json envelope_close
         \<and> length envelope_open + length envelope_close \<le> length json
      then (let c = take (length json - length envelope_open - length envelope_close)
                      (drop (length envelope_open) json)
            in if list_all plainChar c then (if c = [] then Falsy else Content c) else Throws)
      else Throws)"

definition data_line :: "string \<Rightarrow> string" where
  "data_line json = ''data: '' @ json @ [LF]"

definition envelope :: "string \<Rightarrow> string" where
  "envelope text = envelope_open @ text @ envelope_close"

text \<open>
  \<^verbatim>\<open>handleAction\<close> of the studio panel runs the same two loops and then, when the text is
  not empty, publishes it once more.
\<close>

definition handleAction_emitted :: "(string \<Rightarrow> delta) \<Rightarrow> string list \<Rightarrow> string list" where
  "handleAction_emitted parse chunks =
     (let s = assemble parse chunks
      in emitted s @ (if assistantContent s \<noteq> [] then [assistantContent s] else []))"

subsection \<open>Auxiliary notions for the proofs\<close>

text \<open>Appending a chunk to the pending buffer: \<^verbatim>\<open>buf += decoder.decode(value)\<close>.\<close>

definition feed :: "assembler \<Rightarrow> string \<Rightarrow> assembler" where
  "feed s chunk = s\<lparr>buf := buf s @ chunk\<rparr>"

text \<open>What a run of the inner loop shows to the outside: how it ended, the text and the
  snapshots.\<close>

definition outcome :: "loop_exit \<times> assembler \<Rightarrow> loop_exit \<times> string \<times> string list" where
  "outcome r = (fst r, assistantContent (snd r), emitted (snd r))"

text \<open>The buffer starts with a complete \<^verbatim>\<open>data: \<close> line whose payload throws.\<close>

definition blocked :: "(string \<Rightarrow> delta) \<Rightarrow> string \<Rightarrow> bool" where
  "blocked parse b =
     (case indexOf LF b of
        None \<Rightarrow> False
      | Some nl \<Rightarrow>
          (let line = stripCR (take nl b)
           in \<not> ignored line \<and> payload line \<noteq> ''[DONE]'' \<and> parse (payload line) = Throws))"

text \<open>Every snapshot extends the ones before it and is extended by the current text.\<close>

definition grows :: "assembler \<Rightarrow> bool" where
  "grows s =
     (sorted_wrt prefix (emitted s) \<and> list_all (\<lambda>x. prefix x (assistantContent s)) (emitted s))"

section \<open>Request failure (the \<^verbatim>\<open>resp.ok\<close> checks of the three fetch calls)\<close>

text \<open>
  \<^verbatim>\<open>resp.json()\<close> either rejects (the body cannot be read or is not JSON) or resolves to
  a JSON value of any kind. A number is kept as what the code can observe of it: whether it
  is zero, and the text that conversion to a string gives. In an object a repeated key
  takes its last value, hence the lookups with \<open>map_of (rev kv)\<close>.
\<close>

datatype json_value =
    JNull
  | JBool bool
  | JNumber bool string
  | JString string
  | JArray "json_value list"
  | JObject "(string \<times> json_value) list"

datatype json_result = Rejects | Resolves json_value

record response =
  status :: nat
  json :: json_result

definition ok :: "response \<Rightarrow> bool" where
  "ok r = (200 \<le> status r \<and> status r \<le> 299)"

text \<open>The status number in a template literal: its decimal notation.\<close>

definition digit :: "nat \<Rightarrow> char" where
  "digit d = ''0123456789'' ! d"

function decimal :: "nat \<Rightarrow> string" where
  "decimal n = (if n < 10 then [digit n] else decimal (n div 10) @ [digit (n mod 10)])"
  by pat_completeness auto
termination
  by (relation "measure id") auto

declare decimal.simps [simp del]

text \<open>Truthiness of a JSON value, as \<^verbatim>\<open>||\<close> tests it.\<close>

fun truthy :: "json_value \<Rightarrow> bool" where
  "truthy JNull = False"
| "truthy (JBool b) = b"
| "truthy (JNumber zero text) = (\<not> zero)"
| "truthy (JString s) = (s \<noteq> [])"
| "truthy (JArray xs) = True"
| "truthy (JObject kv) = True"

text \<open>
  Conversion to a string, as \<^verbatim>\<open>new Error(message)\<close> applies it to its argument: a string
  is itself, an array is its elements joined by commas with \<^verbatim>\<open>null\<close> elements left empty,
  an object is \<^verbatim>\<open>[object Object]\<close>.
\<close>

fun join :: "string \<Rightarrow> string list \<Rightarrow> string" where
  "join sep [] = []"
| "join sep [x] = x"
| "join sep (x # y # ys) = x @ sep @ join sep (y # ys)"

fun toString :: "json_value \<Rightarrow> string" where
  "toString JNull = ''null''"
| "toString (JBool b) = (if b then ''true'' else ''false'')"
| "toString (JNumber zero text) = text"
| "toString (JString s) = s"
| "toString (JArray xs) = join '','' (map (\<lambda>x. if x = JNull then [] else toString x) xs)"
| "toString (JObject kv) = ''[object Object]''"

text \<open>
  What a caller throws at its \<^verbatim>\<open>resp.ok\<close> check: the \<^verbatim>\<open>Error\<close> it constructs, with
  its message, or the \<^verbatim>\<open>TypeError\<close> that the read \<^verbatim>\<open>err.error\<close> raises when \<^verbatim>\<open>err\<close>
  is \<^verbatim>\<open>null\<close>. Either way the enclosing \<^verbatim>\<open>catch\<close> shows the message in a toast.
\<close>

datatype thrown = ErrorMessage string | NullPropertyRead

text \<open>
  The read \<^verbatim>\<open>err.error\<close>: it throws on \<^verbatim>\<open>null\<close>, gives the property of an object,
  and is \<^verbatim>\<open>undefined\<close> on a boolean, a number, a string or an array.
\<close>

definition errorOf :: "json_value \<Rightarrow> thrown + json_value option" where
  "errorOf err =
     (case err of
        JNull \<Rightarrow> Inl NullPropertyRead
      | JObject kv \<Rightarrow> Inr (map_of (rev kv) ''error'')
      | _ \<Rightarrow> Inr None)"

text \<open>\<^verbatim>\<open>a || b\<close> followed by the conversion to a string, for a string \<open>b\<close>.\<close>

definition orElse :: "json_value option \<Rightarrow> string \<Rightarrow> string" where
  "orElse a b = (case a of None \<Rightarrow> b | Some v \<Rightarrow> if truthy v then toString v else b)"

text \<open>\<^verbatim>\<open>throw new Error(err.error || fallback)\<close>.\<close>

definition throwError :: "json_value \<Rightarrow> string \<Rightarrow> thrown" where
  "throwError err fallback =
     (case errorOf err of
        Inl t \<Rightarrow> t
      | Inr e \<Rightarrow> ErrorMessage (orElse e fallback))"

text \<open>
  What each caller throws at its \<^verbatim>\<open>resp.ok\<close> check; \<open>None\<close> when nothing is thrown
  there.
  \<^item> \<^verbatim>\<open>handleSend\<close>:
    \<^verbatim>\<open>err = await resp.json().catch(() => ({ error: "Request failed" }));
    throw new Error(err.error || `Error ${resp.status}`)\<close>
  \<^item> \<^verbatim>\<open>handleAction\<close>: \<^verbatim>\<open>throw new Error(`Error ${resp.status}`)\<close>
  \<^item> \<^verbatim>\<open>handleVideoAction\<close>:
    \<^verbatim>\<open>err = await resp.json().catch(() => ({ error: `Error ${resp.status}` }));
    throw new Error(err.error || `Error ${resp.status}`)\<close>
\<close>

definition handleSend_failure :: "response \<Rightarrow> thrown option" where
  "handleSend_failure resp =
     (if \<not> ok resp
      then (let err = (case json resp of
                         Rejects \<Rightarrow> JObject [(''error'', JString ''Request failed'')]
                       | Resolves v \<Rightarrow> v)
            in Some (throwError err (''Error '' @ decimal (status resp))))
      else None)"


definition handleVideoAction_failure :: "response \<Rightarrow> thrown option" where
  "handleVideoAction_failure resp =
     (if \<not> ok resp
      then (let err = (case json resp of
                         Rejects \<Rightarrow> JObject [(''error'', JString (''Error '' @ decimal (status resp)))]
                       | Resolves v \<Rightarrow> v)
            in Some (throwError err (''Error '' @ decimal (status resp))))
      else None)"

section \<open>Presentation player (VideoPlayer)\<close>

subsection \<open>Slides\<close>

record slide =
  title :: string
  points :: "string list"
  narration :: string
  color :: string

text \<open>\<^verbatim>\<open>slides[index]\<close>: \<^verbatim>\<open>undefined\<close> outside the array.\<close>

definition slideAt :: "slide list \<Rightarrow> int \<Rightarrow> slide option" where
  "slideAt slides index =
     (if 0 \<le> index \<and> index < int (length slides) then Some (slides ! nat index) else None)"

text \<open>
  \<^verbatim>\<open>text.split(/\s+/).length\<close>: one more than the number of maximal runs of white space
  (a run at either end yields an empty first or last piece).
\<close>

fun spaceRuns :: "string \<Rightarrow> nat" where
  "spaceRuns [] = 0"
| "spaceRuns [c] = (if isSpace c then 1 else 0)"
| "spaceRuns (c # d # cs) = (if isSpace c \<and> \<not> isSpace d then 1 else 0) + spaceRuns (d # cs)"

definition wordCount :: "string \<Rightarrow> nat" where
  "wordCount text = spaceRuns text + 1"

subsection \<open>State\<close>

text \<open>
  The five \<^verbatim>\<open>useState\<close> cells, the refs, and what the component has handed to the
  runtime: the live \<^verbatim>\<open>setInterval\<close> callback (\<open>Fallback index\<close> is the one installed
  by the muted branch of \<^verbatim>\<open>speakSlide(index)\<close>, \<open>Narration\<close> the one of the audible
  branch), the utterance in flight with the index its callbacks captured, the pending
  \<^verbatim>\<open>setTimeout\<close> callbacks that advance the slide (each with its captured index; the
  component never clears them), and whether the auto-hide timer is pending. Progress and
  durations are exact rationals standing for the doubles of the source; times are
  milliseconds as returned by \<^verbatim>\<open>Date.now()\<close>.
\<close>

datatype ticker = Fallback int | Narration

record player =
  currentSlide :: int
  isPlaying :: bool
  isMuted :: bool
  slideProgress :: rat
  showControls :: bool
  intervalRef :: "ticker option"
  startTimeRef :: int
  durationRef :: rat
  controlsTimerRef :: bool
  utterance :: "int option"
  timeouts :: "int list"

definition initial :: player where
  "initial =
     \<lparr>currentSlide = 0, isPlaying = False, isMuted = False, slideProgress = 0,
      showControls = True, intervalRef = None, startTimeRef = 0, durationRef = 5000,
      controlsTimerRef = False, utterance = None, timeouts = []\<rparr>"

datatype error = TypeError

subsection \<open>Callbacks\<close>

definition stopSpeech :: "player \<Rightarrow> player" where
  "stopSpeech s = s\<lparr>utterance := None, intervalRef := None, slideProgress := 0\<rparr>"

text \<open>
  \<^verbatim>\<open>speakSlide(index)\<close> at time \<open>now\<close>. The read \<^verbatim>\<open>slides[index].narration\<close> of the
  audible branch throws on \<^verbatim>\<open>undefined\<close>; the model keeps that branch.
\<close>

definition speakSlide :: "slide list \<Rightarrow> int \<Rightarrow> int \<Rightarrow> player \<Rightarrow> error + player" where
  "speakSlide slides now index s0 =
     (let s = stopSpeech s0
      in if isMuted s \<or> slideAt slides index = None
         then Inr (s\<lparr>durationRef := 4000, startTimeRef := now,
                      intervalRef := Some (Fallback index)\<rparr>)
         else
           (case slideAt slides index of
              None \<Rightarrow> Inl TypeError
            | Some sl \<Rightarrow>
                Inr (s\<lparr>durationRef :=
                          max (of_nat (wordCount (narration sl)) / 140 * 60 * 1000) 3000,
                        startTimeRef := now,
                        intervalRef := Some Narration,
                        utterance := Some index\<rparr>)))"

text \<open>\<^verbatim>\<open>Math.min(elapsed / durationRef.current, 1)\<close> with
  \<^verbatim>\<open>elapsed = Date.now() - startTimeRef.current\<close>.\<close>

definition progressAt :: "int \<Rightarrow> player \<Rightarrow> rat" where
  "progressAt now s = min (of_int (now - startTimeRef s) / durationRef s) 1"

text \<open>One firing of the live interval callback.\<close>

definition tick :: "int \<Rightarrow> player \<Rightarrow> player" where
  "tick now s =
     (case intervalRef s of
        None \<Rightarrow> s
      | Some Narration \<Rightarrow> s\<lparr>slideProgress := progressAt now s\<rparr>
      | Some (Fallback index) \<Rightarrow>
          (let progress = progressAt now s;
               s1 = s\<lparr>slideProgress := progress\<rparr>
           in if progress \<ge> 1
              then s1\<lparr>intervalRef := None, timeouts := timeouts s1 @ [index]\<rparr>
              else s1))"

text \<open>The body of both \<^verbatim>\<open>setTimeout\<close> callbacks (after 300 ms and after 500 ms).\<close>

definition advance :: "slide list \<Rightarrow> int \<Rightarrow> player \<Rightarrow> player" where
  "advance slides index s =
     (if index < int (length slides) - 1
      then s\<lparr>currentSlide := index + 1\<rparr>
      else s\<lparr>isPlaying := False, slideProgress := 0\<rparr>)"

text \<open>\<^verbatim>\<open>utterance.onend\<close> and \<^verbatim>\<open>utterance.onerror\<close> of the utterance in flight.\<close>

definition onend :: "int \<Rightarrow> player \<Rightarrow> player" where
  "onend index s =
     s\<lparr>utterance := None, intervalRef := None, slideProgress := 1,
       timeouts := timeouts s @ [index]\<rparr>"

definition onerror :: "player \<Rightarrow> player" where
  "onerror s = s\<lparr>utterance := None, intervalRef := None, isPlaying := False\<rparr>"

definition handlePlay :: "player \<Rightarrow> player" where
  "handlePlay s = s\<lparr>isPlaying := True\<rparr>"

definition handlePause :: "player \<Rightarrow> player" where
  "handlePause s = s\<lparr>isPlaying := False, utterance := None, intervalRef := None\<rparr>"

definition handleStop :: "player \<Rightarrow> player" where
  "handleStop s = (stopSpeech (s\<lparr>isPlaying := False\<rparr>))\<lparr>currentSlide := 0\<rparr>"

definition goToSlide :: "slide list \<Rightarrow> int \<Rightarrow> int \<Rightarrow> player \<Rightarrow> error + player" where
  "goToSlide slides now index s =
     (if index < 0 \<or> index \<ge> int (length slides) then Inr s
      else (let s1 = (stopSpeech s)\<lparr>currentSlide := index\<rparr>
            in if isPlaying s then speakSlide slides now index s1 else Inr s1))"

definition toggleMute :: "player \<Rightarrow> player" where
  "toggleMute s =
     s\<lparr>isMuted := \<not> isMuted s,
       utterance := (if \<not> isMuted s then None else utterance s)\<rparr>"

definition resetControlsTimer :: "player \<Rightarrow> player" where
  "resetControlsTimer s = s\<lparr>showControls := True, controlsTimerRef := isPlaying s\<rparr>"

subsection \<open>Events and re-rendering\<close>

datatype event =
    Play | Pause | Stop | GoTo int | ToggleMute
  | Key string
  | Tick
  | NarrationEnd | NarrationError
  | Advance int
  | PointerMove | HideControls

text \<open>
  The two effects that run after a render, given the state \<open>old\<close> of the previous render:
  \<^verbatim>\<open>useEffect(() => { if (isPlaying) speakSlide(currentSlide) }, [currentSlide, isPlaying, speakSlide])\<close>,
  where \<^verbatim>\<open>speakSlide\<close> is a new function exactly when \<^verbatim>\<open>isMuted\<close> changed, and
  \<^verbatim>\<open>useEffect(() => { resetControlsTimer() }, [isPlaying, resetControlsTimer])\<close>.
\<close>

definition effects :: "slide list \<Rightarrow> int \<Rightarrow> player \<Rightarrow> player \<Rightarrow> error + player" where
  "effects slides now old new =
     (let spoken =
            (if (currentSlide new \<noteq> currentSlide old \<or> isPlaying new \<noteq> isPlaying old
                   \<or> isMuted new \<noteq> isMuted old) \<and> isPlaying new
             then speakSlide slides now (currentSlide new) new
             else Inr new)
      in case spoken of
           Inl e \<Rightarrow> Inl e
         | Inr s \<Rightarrow> Inr (if isPlaying s \<noteq> isPlaying old then resetControlsTimer s else s))"

text \<open>The keyboard handler.\<close>

definition handleKey :: "slide list \<Rightarrow> int \<Rightarrow> string \<Rightarrow> player \<Rightarrow> error + player" where
  "handleKey slides now k s =
     (if k = '' '' then Inr (if isPlaying s then handlePause s else handlePlay s)
      else if k = ''ArrowRight'' then goToSlide slides now (currentSlide s + 1) s
      else if k = ''ArrowLeft'' then goToSlide slides now (currentSlide s - 1) s
      else if k = ''m'' then Inr (toggleMute s)
      else Inr s)"

text \<open>
  The callback that an event runs, before the component renders again. \<open>GoTo\<close> is a call
  of \<^verbatim>\<open>goToSlide\<close>; \<open>Tick\<close> is a firing of the live interval; \<open>NarrationEnd\<close> and
  \<open>NarrationError\<close> are the callbacks of the utterance in flight (an utterance that was
  cancelled delivers none); \<open>Advance index\<close> is the firing of a pending timeout that
  captured \<open>index\<close>; \<open>PointerMove\<close> stands for both \<^verbatim>\<open>onMouseMove\<close> and \<^verbatim>\<open>onClick\<close>
  of the container, \<open>HideControls\<close> for the firing of the auto-hide timer. An event whose
  callback is not installed leaves the state as it is.
\<close>

fun handle :: "slide list \<Rightarrow> int \<Rightarrow> event \<Rightarrow> player \<Rightarrow> error + player" where
  "handle slides now Play s = Inr (handlePlay s)"
| "handle slides now Pause s = Inr (handlePause s)"
| "handle slides now Stop s = Inr (handleStop s)"
| "handle slides now (GoTo index) s = goToSlide slides now index s"
| "handle slides now ToggleMute s = Inr (toggleMute s)"
| "handle slides now (Key k) s = handleKey slides now k s"
| "handle slides now Tick s = Inr (tick now s)"
| "handle slides now NarrationEnd s =
     Inr (case utterance s of None \<Rightarrow> s | Some index \<Rightarrow> onend index s)"
| "handle slides now NarrationError s =
     Inr (case utterance s of None \<Rightarrow> s | Some index \<Rightarrow> onerror s)"
| "handle slides now (Advance index) s =
     Inr (if index \<in> set (timeouts s)
          then advance slides index (s\<lparr>timeouts := remove1 index (timeouts s)\<rparr>)
          else s)"
| "handle slides now PointerMove s = Inr (resetControlsTimer s)"
| "handle slides now HideControls s =
     Inr (if controlsTimerRef s then s\<lparr>showControls := False, controlsTimerRef := False\<rparr> else s)"

definition step :: "slide list \<Rightarrow> int \<Rightarrow> event \<Rightarrow> player \<Rightarrow> error + player" where
  "step slides now ev s =
     (case handle slides now ev s of
        Inl e \<Rightarrow> Inl e
      | Inr s' \<Rightarrow> effects slides now s s')"

text \<open>A history of events, each with the time at which it happens.\<close>

fun run :: "slide list \<Rightarrow> (int \<times> event) list \<Rightarrow> player \<Rightarrow> error + player" where
  "run slides [] s = Inr s"
| "run slides ((now, ev) # rest) s =
     (case step slides now ev s of
        Inl e \<Rightarrow> Inl e
      | Inr s' \<Rightarrow> run slides rest s')"

text \<open>
  What the component renders: \<^verbatim>\<open>null\<close> when \<^verbatim>\<open>slides[currentSlide]\<close> is
  \<^verbatim>\<open>undefined\<close>, else the slide's title and points, and its narration as a subtitle
  while playing.
\<close>

definition render :: "slide list \<Rightarrow> player \<Rightarrow> (string \<times> string list \<times> string option) option" where
  "render slides s =
     (case slideAt slides (currentSlide s) of
        None \<Rightarrow> None
      | Some sl \<Rightarrow> Some (title sl, points sl, if isPlaying s then Some (narration sl) else None))"

section \<open>Concrete inputs\<close>

text \<open>A JSON payload that an upstream server sends on two lines, as wire text.\<close>

definition split_head :: string where
  \<open>split_head = ''data: {"choices":[{"delta":'' @ [LF]\<close>

definition split_tail :: string where
  \<open>split_tail = ''{"content":"X"}}]}'' @ [LF]\<close>

text \<open>A presentation of three slides; each narration is short enough for the 3000 ms floor.\<close>

definition deck3 :: "slide list" where
  "deck3 =
     [\<lparr>title = ''Intro'', points = [''a''], narration = ''Hello world'', color = ''blue''\<rparr>,
      \<lparr>title = ''Body'', points = [''b''], narration = ''Main part'', color = ''green''\<rparr>,
      \<lparr>title = ''End'', points = [''c''], narration = ''Thank you'', color = ''pink''\<rparr>]"

text \<open>The muted player on the last slide of \<open>deck3\<close>, its fallback timer started at 8600.\<close>

definition fallback_last :: player where
  "fallback_last =
     \<lparr>currentSlide = 2, isPlaying = True, isMuted = True, slideProgress = 0,
      showControls = True, intervalRef = Some (Fallback 2), startTimeRef = 8600,
      durationRef = 4000, controlsTimerRef = True, utterance = None, timeouts = []\<rparr>"

text \<open>The audible player half way through the narration of the first slide.\<close>

definition mid_narration :: player where
  "mid_narration =
     \<lparr>currentSlide = 0, isPlaying = True, isMuted = False, slideProgress = 1 / 2,
      showControls = True, intervalRef = Some Narration, startTimeRef = 0,
      durationRef = 3000, controlsTimerRef = True, utterance = Some 0, timeouts = []\<rparr>"

section \<open>The inner loop, case by case\<close>

lemma indexOf_less: "indexOf c s = Some n \<Longrightarrow> n < length s"
  by (induction s arbitrary: n) (auto split: if_splits)

lemma lines_loop_Exhausted:
  "indexOf LF (buf s) = None \<Longrightarrow> lines_loop parse s = (Exhausted, s)"
  by (subst lines_loop.simps) simp

lemma lines_loop_Ignored:
  "indexOf LF (buf s) = Some nl \<Longrightarrow> ignored (stripCR (take nl (buf s))) \<Longrightarrow>
   lines_loop parse s = lines_loop parse (s\<lparr>buf := drop (Suc nl) (buf s)\<rparr>)"
  by (subst lines_loop.simps) simp

lemma lines_loop_Sentinel:
  "indexOf LF (buf s) = Some nl \<Longrightarrow> \<not> ignored (stripCR (take nl (buf s))) \<Longrightarrow>
   payload (stripCR (take nl (buf s))) = ''[DONE]'' \<Longrightarrow>
   lines_loop parse s = (Sentinel, s\<lparr>buf := drop (Suc nl) (buf s)\<rparr>)"
  by (subst lines_loop.simps) simp

lemma lines_loop_Throws:
  "indexOf LF (buf s) = Some nl \<Longrightarrow> \<not> ignored (stripCR (take nl (buf s))) \<Longrightarrow>
   payload (stripCR (take nl (buf s))) \<noteq> ''[DONE]'' \<Longrightarrow>
   parse (payload (stripCR (take nl (buf s)))) = Throws \<Longrightarrow>
   lines_loop parse s =
     (Rebuffered, s\<lparr>buf := stripCR (take nl (buf s)) @ LF # drop (Suc nl) (buf s)\<rparr>)"
  by (subst lines_loop.simps) simp

lemma lines_loop_Falsy:
  "indexOf LF (buf s) = Some nl \<Longrightarrow> \<not> ignored (stripCR (take nl (buf s))) \<Longrightarrow>
   payload (stripCR (take nl (buf s))) \<noteq> ''[DONE]'' \<Longrightarrow>
   parse (payload (stripCR (take nl (buf s)))) = Falsy \<Longrightarrow>
   lines_loop parse s = lines_loop parse (s\<lparr>buf := drop (Suc nl) (buf s)\<rparr>)"
  by (subst lines_loop.simps) simp

lemma lines_loop_Content:
  "indexOf LF (buf s) = Some nl \<Longrightarrow> \<not> ignored (stripCR (take nl (buf s))) \<Longrightarrow>
   payload (stripCR (take nl (buf s))) \<noteq> ''[DONE]'' \<Longrightarrow>
   parse (payload (stripCR (take nl (buf s)))) = Content c \<Longrightarrow>
   lines_loop parse s =
     lines_loop parse
       (s\<lparr>buf := drop (Suc nl) (buf s), assistantContent := assistantContent s @ c,
          emitted := emitted s @ [assistantContent s @ c]\<rparr>)"
  by (subst lines_loop.simps) simp

lemma lines_loop_cases [case_names Exhausted Ignored Sentinel Throws Falsy Content]:
  fixes P :: "assembler \<Rightarrow> bool"
  assumes "\<And>s. indexOf LF (buf s) = None \<Longrightarrow> P s"
    and "\<And>s nl. indexOf LF (buf s) = Some nl \<Longrightarrow> ignored (stripCR (take nl (buf s))) \<Longrightarrow>
           P (s\<lparr>buf := drop (Suc nl) (buf s)\<rparr>) \<Longrightarrow> P s"
    and "\<And>s nl. indexOf LF (buf s) = Some nl \<Longrightarrow> \<not> ignored (stripCR (take nl (buf s))) \<Longrightarrow>
           payload (stripCR (take nl (buf s))) = ''[DONE]'' \<Longrightarrow> P s"
    and "\<And>s nl. indexOf LF (buf s) = Some nl \<Longrightarrow> \<not> ignored (stripCR (take nl (buf s))) \<Longrightarrow>
           payload (stripCR (take nl (buf s))) \<noteq> ''[DONE]'' \<Longrightarrow>
           parse (payload (stripCR (take nl (buf s)))) = Throws \<Longrightarrow> P s"
    and "\<And>s nl. indexOf LF (buf s) = Some nl \<Longrightarrow> \<not> ignored (stripCR (take nl (buf s))) \<Longrightarrow>
           payload (stripCR (take nl (buf s))) \<noteq> ''[DONE]'' \<Longrightarrow>
           parse (payload (stripCR (take nl (buf s)))) = Falsy \<Longrightarrow>
           P (s\<lparr>buf := drop (Suc nl) (buf s)\<rparr>) \<Longrightarrow> P s"
    and "\<And>s nl c. indexOf LF (buf s) = Some nl \<Longrightarrow> \<not> ignored (stripCR (take nl (buf s))) \<Longrightarrow>
           payload (stripCR (take nl (buf s))) \<noteq> ''[DONE]'' \<Longrightarrow>
           parse (payload (stripCR (take nl (buf s)))) = Content c \<Longrightarrow>
           P (s\<lparr>buf := drop (Suc nl) (buf s), assistantContent := assistantContent s @ c,
                emitted := emitted s @ [assistantContent s @ c]\<rparr>) \<Longrightarrow> P s"
  shows "P s"
proof (induction "length (buf s)" arbitrary: s rule: less_induct)
  case less
  show ?case
  proof (cases "indexOf LF (buf s)")
    case None
    then show ?thesis by (rule assms(1))
  next
    case (Some nl)
    then have shorter: "length (buf (s\<lparr>buf := drop (Suc nl) (buf s)\<rparr>)) < length (buf s)"
      by (auto dest: indexOf_less)
    show ?thesis
    proof (cases "ignored (stripCR (take nl (buf s)))")
      case True
      from assms(2) [OF Some True] less [OF shorter] show ?thesis .
    next
      case notign: False
      show ?thesis
      proof (cases "payload (stripCR (take nl (buf s))) = ''[DONE]''")
        case True
        from assms(3) [OF Some notign True] show ?thesis .
      next
        case notdone: False
        show ?thesis
        proof (cases "parse (payload (stripCR (take nl (buf s))))")
          case Throws
          from assms(4) [OF Some notign notdone Throws] show ?thesis .
        next
          case Falsy
          from assms(5) [OF Some notign notdone Falsy] less [OF shorter] show ?thesis .
        next
          case (Content c)
          have "length (buf (s\<lparr>buf := drop (Suc nl) (buf s),
                  assistantContent := assistantContent s @ c,
                  emitted := emitted s @ [assistantContent s @ c]\<rparr>)) < length (buf s)"
            using shorter by simp
          from assms(6) [OF Some notign notdone Content] less [OF this] show ?thesis .
        qed
      qed
    qed
  qed
qed

lemmas assembler_defs =
  assemble_def start_def lines_loop.simps data_line_def envelope_def envelope_open_def
  envelope_close_def LF_def CR_def startsWith_def endsWith_def trim_def isSpace_def
  canonical_delta_def plainChar_def stripCR_def ignored_def payload_def

text \<open>Scenario A of the specification: three lines, two snapshots, final text \<open>Hello\<close>.\<close>

lemma scenario_A:
  "assemble canonical_delta
     [data_line (envelope ''Hel''), data_line (envelope ''lo''), data_line ''[DONE]''] =
     \<lparr>buf = [], assistantContent = ''Hello'', emitted = [''Hel'', ''Hello'']\<rparr>"
  by (simp add: assembler_defs)

section \<open>Monotonic accumulation\<close>

lemma lines_loop_grows: "grows s \<Longrightarrow> grows (snd (lines_loop parse s))"
proof (induction s rule: lines_loop_cases [where parse = parse])
  case (Exhausted s)
  then show ?case by (simp add: lines_loop_Exhausted)
next
  case (Ignored s nl)
  from Ignored.prems have "grows (s\<lparr>buf := drop (Suc nl) (buf s)\<rparr>)" by (simp add: grows_def)
  then show ?case using Ignored.IH by (simp only: lines_loop_Ignored [of s nl parse, OF Ignored.hyps])
next
  case (Sentinel s nl)
  then show ?case by (simp add: lines_loop_Sentinel [of s nl parse] grows_def)
next
  case (Throws s nl)
  then show ?case by (simp add: lines_loop_Throws [of s nl parse] grows_def)
next
  case (Falsy s nl)
  from Falsy.prems have "grows (s\<lparr>buf := drop (Suc nl) (buf s)\<rparr>)" by (simp add: grows_def)
  then show ?case using Falsy.IH by (simp only: lines_loop_Falsy [of s nl parse, OF Falsy.hyps])
next
  case (Content s nl c)
  have "grows (s\<lparr>buf := drop (Suc nl) (buf s), assistantContent := assistantContent s @ c,
                emitted := emitted s @ [assistantContent s @ c]\<rparr>)"
    using Content.prems
    by (simp add: grows_def sorted_wrt_append list_all_iff prefix_prefix)
  then show ?case using Content.IH by (simp only: lines_loop_Content [of s nl parse c, OF Content.hyps])
qed

lemma read_loop_grows: "grows s \<Longrightarrow> grows (read_loop parse chunks s)"
proof (induction chunks arbitrary: s)
  case (Cons c cs)
  have "grows (s\<lparr>buf := buf s @ c\<rparr>)" using Cons.prems by (simp add: grows_def)
  then show ?case using Cons.IH lines_loop_grows by simp
qed simp

lemma lines_loop_extends:
  "prefix (assistantContent s) (assistantContent (snd (lines_loop parse s)))"
proof (induction s rule: lines_loop_cases [where parse = parse])
  case (Exhausted s)
  then show ?case by (simp add: lines_loop_Exhausted)
next
  case (Ignored s nl)
  then show ?case by (simp add: lines_loop_Ignored [of s nl parse])
next
  case (Sentinel s nl)
  then show ?case by (simp add: lines_loop_Sentinel [of s nl parse])
next
  case (Throws s nl)
  then show ?case by (simp add: lines_loop_Throws [of s nl parse])
next
  case (Falsy s nl)
  then show ?case by (simp add: lines_loop_Falsy [of s nl parse])
next
  case (Content s nl c)
  have "prefix (assistantContent s) (assistantContent s @ c)" by simp
  also from Content.IH
  have "prefix (assistantContent s @ c) (assistantContent (snd (lines_loop parse s)))"
    by (simp add: lines_loop_Content [of s nl parse c, OF Content.hyps])
  finally show ?case .
qed

lemma read_loop_extends:
  "prefix (assistantContent s) (assistantContent (read_loop parse chunks s))"
proof (induction chunks arbitrary: s)
  case Nil
  show ?case by simp
next
  case (Cons c cs)
  have "prefix (assistantContent s)
          (assistantContent (snd (lines_loop parse (s\<lparr>buf := buf s @ c\<rparr>))))"
    using lines_loop_extends [of "s\<lparr>buf := buf s @ c\<rparr>" parse] by simp
  also note Cons.IH [of "snd (lines_loop parse (s\<lparr>buf := buf s @ c\<rparr>))"]
  finally show ?case by simp
qed

lemma read_loop_append:
  "read_loop parse (xs @ ys) s = read_loop parse ys (read_loop parse xs s)"
  by (induction xs arbitrary: s) simp_all

text \<open>
  Claim C5. For every payload reader and every sequence of chunks, the snapshots that the
  assembler emits form a chain of prefixes: each one extends all earlier ones, and all of
  them are prefixes of the text accumulated at the end. The same holds for the studio
  panel, which publishes the final text once more after the stream has closed. The
  accumulated text itself only grows: whatever chunks arrive later, the text then extends
  the text now.
\<close>

theorem monotonic_accumulation:
  "sorted_wrt prefix (emitted (assemble parse chunks)) \<and>
   list_all (\<lambda>x. prefix x (assistantContent (assemble parse chunks)))
     (emitted (assemble parse chunks)) \<and>
   sorted_wrt prefix (handleAction_emitted parse chunks) \<and>
   prefix (assistantContent (assemble parse chunks))
     (assistantContent (assemble parse (chunks @ later)))"
proof -
  have "grows (assemble parse chunks)"
    unfolding assemble_def by (rule read_loop_grows) (simp add: grows_def start_def)
  then show ?thesis
    using read_loop_extends [of "read_loop parse chunks start" parse later]
    by (auto simp: grows_def handleAction_emitted_def Let_def sorted_wrt_append list_all_iff
          assemble_def read_loop_append)
qed

section \<open>A line whose payload throws\<close>

lemma indexOf_append: "indexOf c xs = Some n \<Longrightarrow> indexOf c (xs @ ys) = Some n"
  by (induction xs arbitrary: n) (auto split: if_splits)

lemma indexOf_fresh: "c \<notin> set l \<Longrightarrow> indexOf c (l @ c # r) = Some (length l)"
  by (induction l) auto

lemma indexOf_take: "indexOf c xs = Some n \<Longrightarrow> c \<notin> set (take n xs)"
  by (induction xs arbitrary: n) (auto split: if_splits)

lemma set_stripCR: "set (stripCR l) \<subseteq> set l"
  by (auto simp: stripCR_def dest: in_set_butlastD)

lemma trim_snoc_space: "isSpace c \<Longrightarrow> trim (xs @ [c]) = trim xs"
proof (cases "\<forall>x\<in>set xs. isSpace x")
  case True
  assume "isSpace c"
  with True have "dropWhile isSpace (xs @ [c]) = []" "dropWhile isSpace xs = []"
    by (auto simp: dropWhile_eq_Nil_conv simp del: dropWhile_append)
  then show ?thesis unfolding trim_def by (simp only:)
next
  case False
  assume "isSpace c"
  with False show ?thesis by (auto simp: trim_def dropWhile_append)
qed

lemma isSpace_CR: "isSpace CR"
  by (simp add: isSpace_def CR_def)

lemma startsWith_iff: "startsWith l p \<longleftrightarrow> (\<exists>xs. l = p @ xs)"
proof
  assume "startsWith l p"
  then have "l = p @ drop (length p) l"
    unfolding startsWith_def by (metis append_take_drop_id)
  then show "\<exists>xs. l = p @ xs" ..
next
  assume "\<exists>xs. l = p @ xs"
  then show "startsWith l p" by (auto simp: startsWith_def)
qed


lemma trim_data_nonempty: "trim (''data: '' @ xs) \<noteq> []"
proof -
  have front: "dropWhile isSpace (''data: '' @ xs) = ''data: '' @ xs"
    by (simp add: isSpace_def)
  have rear: "dropWhile isSpace (rev xs @ '' :atad'') \<noteq> []"
    by (simp add: dropWhile_append isSpace_def)
  show ?thesis unfolding trim_def front using rear by simp
qed

lemma ignored_iff: "ignored l \<longleftrightarrow> \<not> startsWith l ''data: ''"
proof (cases "startsWith l ''data: ''")
  case True
  then obtain xs where l: "l = ''data: '' @ xs" by (auto simp: startsWith_iff)
  have "\<not> startsWith l '':''" by (simp add: l startsWith_def)
  moreover have "trim l \<noteq> []" unfolding l by (rule trim_data_nonempty)
  ultimately show ?thesis using True by (simp add: ignored_def)
next
  case False
  then show ?thesis by (simp add: ignored_def)
qed

lemma stripCR_data:
  assumes "startsWith l ''data: ''"
  shows "startsWith (stripCR l) ''data: ''" and "payload (stripCR l) = payload l"
proof -
  from assms obtain xs where l: "l = ''data: '' @ xs" by (auto simp: startsWith_iff)
  show "startsWith (stripCR l) ''data: ''"
  proof (cases xs rule: rev_cases)
    case Nil
    then show ?thesis by (simp add: l stripCR_def endsWith_def startsWith_def CR_def)
  next
    case (snoc ys y)
    then show ?thesis by (simp add: l stripCR_def startsWith_def butlast_append)
  qed
  show "payload (stripCR l) = payload l"
  proof (cases xs rule: rev_cases)
    case Nil
    then show ?thesis by (simp add: l stripCR_def endsWith_def CR_def)
  next
    case (snoc ys y)
    show ?thesis
    proof (cases "y = CR")
      case True
      have "stripCR l = ''data: '' @ ys"
        by (simp add: l snoc True stripCR_def endsWith_def butlast_append)
      then show ?thesis
        using trim_snoc_space [OF isSpace_CR, of ys] by (simp add: l snoc True payload_def)
    next
      case False
      then have "stripCR l = l" by (simp add: l snoc stripCR_def endsWith_def)
      then show ?thesis by simp
    qed
  qed
qed

lemma blocked_append: "blocked parse b \<Longrightarrow> blocked parse (b @ extra)"
  by (auto simp: blocked_def Let_def indexOf_append split: option.splits dest: indexOf_less)

lemma blocked_loop:
  assumes "blocked parse (buf s)"
  shows "\<exists>b. blocked parse b \<and> lines_loop parse s = (Rebuffered, s\<lparr>buf := b\<rparr>)"
proof -
  from assms obtain nl where nl: "indexOf LF (buf s) = Some nl"
    and ni: "\<not> ignored (stripCR (take nl (buf s)))"
    and nd: "payload (stripCR (take nl (buf s))) \<noteq> ''[DONE]''"
    and th: "parse (payload (stripCR (take nl (buf s)))) = Throws"
    by (auto simp: blocked_def Let_def split: option.splits)
  let ?line = "stripCR (take nl (buf s))"
  let ?b = "?line @ LF # drop (Suc nl) (buf s)"
  have fresh: "LF \<notin> set ?line"
    using indexOf_take [OF nl] set_stripCR [of "take nl (buf s)"] by auto
  have ix: "indexOf LF ?b = Some (length ?line)" by (rule indexOf_fresh [OF fresh])
  have sw: "startsWith ?line ''data: ''" using ni by (simp add: ignored_iff)
  have "blocked parse ?b"
    using stripCR_data [OF sw] nd th by (simp add: blocked_def ix ignored_iff)
  moreover have "lines_loop parse s = (Rebuffered, s\<lparr>buf := ?b\<rparr>)"
    by (rule lines_loop_Throws [of s nl parse, OF nl ni nd th])
  ultimately show ?thesis by blast
qed

lemma rebuffered_blocked:
  "fst (lines_loop parse s) = Rebuffered \<Longrightarrow> blocked parse (buf (snd (lines_loop parse s)))"
proof (induction s rule: lines_loop_cases [where parse = parse])
  case (Exhausted s)
  then show ?case by (simp add: lines_loop_Exhausted)
next
  case (Ignored s nl)
  then show ?case by (simp only: lines_loop_Ignored [of s nl parse, OF Ignored.hyps])
next
  case (Sentinel s nl)
  then show ?case by (simp add: lines_loop_Sentinel [of s nl parse])
next
  case (Throws s nl)
  then have "blocked parse (buf s)" by (simp add: blocked_def)
  from blocked_loop [OF this] show ?case by auto
next
  case (Falsy s nl)
  then show ?case by (simp only: lines_loop_Falsy [of s nl parse, OF Falsy.hyps])
next
  case (Content s nl c)
  then show ?case by (simp only: lines_loop_Content [of s nl parse c, OF Content.hyps])
qed

lemma blocked_read_loop:
  "blocked parse (buf s) \<Longrightarrow>
   assistantContent (read_loop parse chunks s) = assistantContent s \<and>
   emitted (read_loop parse chunks s) = emitted s"
proof (induction chunks arbitrary: s)
  case Nil
  show ?case by simp
next
  case (Cons c cs)
  let ?t = "s\<lparr>buf := buf s @ c\<rparr>"
  from Cons.prems have "blocked parse (buf ?t)" by (simp add: blocked_append)
  from blocked_loop [OF this] obtain b where b: "blocked parse b"
    and loop: "lines_loop parse ?t = (Rebuffered, ?t\<lparr>buf := b\<rparr>)" by blast
  from b have "blocked parse (buf (?t\<lparr>buf := b\<rparr>))" by simp
  from Cons.IH [OF this] show ?case by (simp add: loop)
qed

text \<open>
  Once the inner loop has left through its \<^verbatim>\<open>catch\<close>, the buffer starts with the line that
  failed, still terminated by a newline. Every later chunk makes the loop read that line
  again and leave the same way, so neither the text nor the snapshots change any more.
\<close>

lemma rebuffered_never_recovers:
  assumes "fst (lines_loop parse s) = Rebuffered"
  shows "assistantContent (read_loop parse chunks (snd (lines_loop parse s))) =
           assistantContent (snd (lines_loop parse s)) \<and>
         emitted (read_loop parse chunks (snd (lines_loop parse s))) =
           emitted (snd (lines_loop parse s))"
  by (rule blocked_read_loop) (rule rebuffered_blocked [OF assms])

text \<open>
  Claim C7. The claim says that after a payload fails to parse the line is put back and the
  loop is left, and that thereby no stream data is lost when a server sends a JSON payload
  on several lines. The loop does put the line back and leave, and it raises nothing. But
  the stream below carries a payload on two lines followed by a well-formed event with the
  text \<open>Y\<close>: the first line fails in each of the three rounds, and neither \<open>X\<close> nor
  \<open>Y\<close> ever reaches the accumulated text.
\<close>

theorem multi_line_payload_stalls_stream:
  "assemble canonical_delta [split_head, split_tail, data_line (envelope ''Y'')] =
     \<lparr>buf = split_head @ split_tail @ data_line (envelope ''Y''),
      assistantContent = [], emitted = []\<rparr>"
  by (simp add: assembler_defs split_head_def split_tail_def)

section \<open>The sentinel\<close>

text \<open>
  Claim C1. The claim says that nothing is appended or emitted after a \<^verbatim>\<open>data: [DONE]\<close>
  line. The \<^verbatim>\<open>break\<close> at the sentinel leaves the inner loop only; the outer loop goes on
  reading. In the first stream the event after the sentinel arrives in a later chunk, in the
  second one event is left behind in the buffer and another arrives later: all of them are
  appended and emitted.
\<close>

theorem events_after_done_are_appended:
  "assemble canonical_delta [data_line ''[DONE]'', data_line (envelope ''X'')] =
     \<lparr>buf = [], assistantContent = ''X'', emitted = [''X'']\<rparr> \<and>
   assemble canonical_delta
     [data_line (envelope ''A'') @ data_line ''[DONE]'' @ data_line (envelope ''B''),
      data_line (envelope ''C'')] =
     \<lparr>buf = [], assistantContent = ''ABC'', emitted = [''A'', ''AB'', ''ABC'']\<rparr>"
  by (simp add: assembler_defs)

text \<open>A stream that closes without a sentinel ends with the text accumulated so far.\<close>

lemma stream_without_done:
  "assemble canonical_delta [data_line (envelope ''Hel''), data_line (envelope ''lo'')] =
     \<lparr>buf = [], assistantContent = ''Hello'', emitted = [''Hel'', ''Hello'']\<rparr>"
  by (simp add: assembler_defs)

section \<open>Chunk boundaries\<close>

lemma feed_line:
  assumes "indexOf LF (buf s) = Some nl"
  shows "indexOf LF (buf (feed s e)) = Some nl"
    and "take nl (buf (feed s e)) = take nl (buf s)"
    and "feed s e\<lparr>buf := drop (Suc nl) (buf (feed s e))\<rparr> = feed (s\<lparr>buf := drop (Suc nl) (buf s)\<rparr>) e"
  using assms indexOf_less [OF assms] by (simp_all add: indexOf_append feed_def)

lemma feed_Ignored:
  assumes "indexOf LF (buf s) = Some nl" and "ignored (stripCR (take nl (buf s)))"
  shows "lines_loop parse (feed s e) = lines_loop parse (feed (s\<lparr>buf := drop (Suc nl) (buf s)\<rparr>) e)"
proof -
  note f = feed_line [OF assms(1), of e]
  from assms(2) have "ignored (stripCR (take nl (buf (feed s e))))" by (simp add: f(2))
  from lines_loop_Ignored [of "feed s e" nl parse, OF f(1) this] show ?thesis by (simp only: f(3))
qed

lemma feed_Sentinel:
  assumes "indexOf LF (buf s) = Some nl" and "\<not> ignored (stripCR (take nl (buf s)))"
    and "payload (stripCR (take nl (buf s))) = ''[DONE]''"
  shows "lines_loop parse (feed s e) = (Sentinel, feed (s\<lparr>buf := drop (Suc nl) (buf s)\<rparr>) e)"
proof -
  note f = feed_line [OF assms(1), of e]
  from assms(2,3) have "\<not> ignored (stripCR (take nl (buf (feed s e))))"
    and "payload (stripCR (take nl (buf (feed s e)))) = ''[DONE]''" by (simp_all add: f(2))
  from lines_loop_Sentinel [of "feed s e" nl parse, OF f(1) this] show ?thesis by (simp only: f(3))
qed

lemma feed_Falsy:
  assumes "indexOf LF (buf s) = Some nl" and "\<not> ignored (stripCR (take nl (buf s)))"
    and "payload (stripCR (take nl (buf s))) \<noteq> ''[DONE]''"
    and "parse (payload (stripCR (take nl (buf s)))) = Falsy"
  shows "lines_loop parse (feed s e) = lines_loop parse (feed (s\<lparr>buf := drop (Suc nl) (buf s)\<rparr>) e)"
proof -
  note f = feed_line [OF assms(1), of e]
  from assms(2,3,4) have "\<not> ignored (stripCR (take nl (buf (feed s e))))"
    and "payload (stripCR (take nl (buf (feed s e)))) \<noteq> ''[DONE]''"
    and "parse (payload (stripCR (take nl (buf (feed s e))))) = Falsy" by (simp_all add: f(2))
  from lines_loop_Falsy [of "feed s e" nl parse, OF f(1) this] show ?thesis by (simp only: f(3))
qed

lemma feed_Content:
  assumes "indexOf LF (buf s) = Some nl" and "\<not> ignored (stripCR (take nl (buf s)))"
    and "payload (stripCR (take nl (buf s))) \<noteq> ''[DONE]''"
    and "parse (payload (stripCR (take nl (buf s)))) = Content c"
  shows "lines_loop parse (feed s e) =
         lines_loop parse
           (feed (s\<lparr>buf := drop (Suc nl) (buf s), assistantContent := assistantContent s @ c,
                     emitted := emitted s @ [assistantContent s @ c]\<rparr>) e)"
proof -
  note f = feed_line [OF assms(1), of e]
  from assms(2,3,4) have "\<not> ignored (stripCR (take nl (buf (feed s e))))"
    and "payload (stripCR (take nl (buf (feed s e)))) \<noteq> ''[DONE]''"
    and "parse (payload (stripCR (take nl (buf (feed s e))))) = Content c" by (simp_all add: f(2))
  from lines_loop_Content [of "feed s e" nl parse c, OF f(1) this]
  have "lines_loop parse (feed s e) =
        lines_loop parse
          (feed s e\<lparr>buf := drop (Suc nl) (buf (feed s e)),
             assistantContent := assistantContent (feed s e) @ c,
             emitted := emitted (feed s e) @ [assistantContent (feed s e) @ c]\<rparr>)" .
  also have "feed s e\<lparr>buf := drop (Suc nl) (buf (feed s e)),
             assistantContent := assistantContent (feed s e) @ c,
             emitted := emitted (feed s e) @ [assistantContent (feed s e) @ c]\<rparr> =
        feed (s\<lparr>buf := drop (Suc nl) (buf s), assistantContent := assistantContent s @ c,
                     emitted := emitted s @ [assistantContent s @ c]\<rparr>) e"
    using indexOf_less [OF assms(1)] by (simp add: feed_def)
  finally show ?thesis .
qed

lemma sentinel_feed:
  "fst (lines_loop parse s) = Sentinel \<Longrightarrow> fst (lines_loop parse (feed s e)) = Sentinel"
proof (induction s rule: lines_loop_cases [where parse = parse])
  case (Exhausted s)
  then show ?case by (simp add: lines_loop_Exhausted)
next
  case (Ignored s nl)
  then show ?case
    by (simp only: lines_loop_Ignored [of s nl parse, OF Ignored.hyps] feed_Ignored [OF Ignored.hyps])
next
  case (Sentinel s nl)
  show ?case by (simp only: feed_Sentinel [OF Sentinel.hyps] fst_conv)
next
  case (Throws s nl)
  then show ?case by (simp add: lines_loop_Throws [of s nl parse])
next
  case (Falsy s nl)
  then show ?case
    by (simp only: lines_loop_Falsy [of s nl parse, OF Falsy.hyps] feed_Falsy [of s nl parse, OF Falsy.hyps])
next
  case (Content s nl c)
  then show ?case
    by (simp only: lines_loop_Content [of s nl parse c, OF Content.hyps]
          feed_Content [of s nl parse c, OF Content.hyps])
qed

lemma feed_after_loop:
  "fst (lines_loop parse s) \<noteq> Sentinel \<Longrightarrow>
   outcome (lines_loop parse (feed s e)) =
   outcome (lines_loop parse (feed (snd (lines_loop parse s)) e))"
proof (induction s rule: lines_loop_cases [where parse = parse])
  case (Exhausted s)
  then show ?case by (simp add: lines_loop_Exhausted)
next
  case (Ignored s nl)
  note eq = lines_loop_Ignored [of s nl parse, OF Ignored.hyps]
  have "fst (lines_loop parse (s\<lparr>buf := drop (Suc nl) (buf s)\<rparr>)) \<noteq> Sentinel"
    using Ignored.prems unfolding eq .
  from Ignored.IH [OF this] show ?case
    by (simp only: eq feed_Ignored [OF Ignored.hyps])
next
  case (Sentinel s nl)
  then show ?case by (simp add: lines_loop_Sentinel [of s nl parse])
next
  case (Throws s nl)
  then have b: "blocked parse (buf s)" by (simp add: blocked_def)
  then have "blocked parse (buf (feed s e))" by (simp add: blocked_append feed_def)
  from blocked_loop [OF this]
  have 1: "outcome (lines_loop parse (feed s e)) = (Rebuffered, assistantContent s, emitted s)"
    by (auto simp: outcome_def feed_def)
  from blocked_loop [OF b] obtain b' where b': "blocked parse b'"
    and l: "lines_loop parse s = (Rebuffered, s\<lparr>buf := b'\<rparr>)"
    by blast
  from b' have "blocked parse (buf (feed (s\<lparr>buf := b'\<rparr>) e))" by (simp add: blocked_append feed_def)
  from blocked_loop [OF this]
  have "outcome (lines_loop parse (feed (s\<lparr>buf := b'\<rparr>) e)) = (Rebuffered, assistantContent s, emitted s)"
    by (auto simp: outcome_def feed_def)
  with 1 l show ?case by simp
next
  case (Falsy s nl)
  note eq = lines_loop_Falsy [of s nl parse, OF Falsy.hyps]
  have "fst (lines_loop parse (s\<lparr>buf := drop (Suc nl) (buf s)\<rparr>)) \<noteq> Sentinel"
    using Falsy.prems unfolding eq .
  from Falsy.IH [OF this] show ?case
    by (simp only: eq feed_Falsy [of s nl parse, OF Falsy.hyps])
next
  case (Content s nl c)
  note eq = lines_loop_Content [of s nl parse c, OF Content.hyps]
  have "fst (lines_loop parse
       (s\<lparr>buf := drop (Suc nl) (buf s), assistantContent := assistantContent s @ c,
          emitted := emitted s @ [assistantContent s @ c]\<rparr>)) \<noteq> Sentinel"
    using Content.prems unfolding eq .
  from Content.IH [OF this] show ?case
    by (simp only: eq feed_Content [of s nl parse c, OF Content.hyps])
qed

lemma feed_feed: "feed (feed s a) b = feed s (a @ b)"
  by (simp add: feed_def)

lemma read_loop_one_chunk:
  "fst (lines_loop parse (feed s0 (concat chunks))) \<noteq> Sentinel \<Longrightarrow>
   (let s = read_loop parse chunks (snd (lines_loop parse s0));
        t = snd (lines_loop parse (feed s0 (concat chunks)))
    in assistantContent s = assistantContent t \<and> emitted s = emitted t)"
proof (induction chunks arbitrary: s0)
  case Nil
  show ?case by (simp add: feed_def)
next
  case (Cons c cs)
  let ?s' = "snd (lines_loop parse s0)"
  let ?t0 = "feed ?s' c"
  have ns0: "fst (lines_loop parse s0) \<noteq> Sentinel"
    using Cons.prems sentinel_feed [of parse s0 "concat (c # cs)"] by auto
  from feed_after_loop [OF ns0, of "c @ concat cs"]
  have eq: "outcome (lines_loop parse (feed s0 (c @ concat cs))) =
            outcome (lines_loop parse (feed ?t0 (concat cs)))"
    by (simp add: feed_feed)
  with Cons.prems have "fst (lines_loop parse (feed ?t0 (concat cs))) \<noteq> Sentinel"
    by (simp add: outcome_def)
  from Cons.IH [OF this] eq show ?case
    by (simp add: Let_def outcome_def feed_def)
qed

text \<open>
  As long as the wire text, read in one piece, does not make the loop stop at the sentinel,
  the boundaries between chunks do not matter: the final text and the snapshots are those of
  the delivery in one chunk.
\<close>

lemma chunk_independent_without_sentinel:
  assumes "fst (lines_loop parse (start\<lparr>buf := concat chunks\<rparr>)) \<noteq> Sentinel"
  shows "assistantContent (assemble parse chunks) = assistantContent (assemble parse [concat chunks])"
    and "emitted (assemble parse chunks) = emitted (assemble parse [concat chunks])"
proof -
  have s: "snd (lines_loop parse start) = start"
    by (simp add: lines_loop_Exhausted start_def)
  have f: "feed start (concat chunks) = start\<lparr>buf := concat chunks\<rparr>"
    by (simp add: feed_def start_def)
  from assms have "fst (lines_loop parse (feed start (concat chunks))) \<noteq> Sentinel"
    by (simp add: f)
  from read_loop_one_chunk [OF this]
  show "assistantContent (assemble parse chunks) = assistantContent (assemble parse [concat chunks])"
    and "emitted (assemble parse chunks) = emitted (assemble parse [concat chunks])"
    by (simp_all add: Let_def s f assemble_def feed_def)
qed

text \<open>
  Claim C6. The claim says that the final text does not depend on where the wire text is
  cut into chunks. The same wire text, a sentinel line followed by one event, gives the
  empty text when it arrives in one chunk and the text \<open>X\<close> when it is cut after the
  sentinel line.
\<close>

theorem chunking_after_done_changes_text:
  "assistantContent
     (assemble canonical_delta [data_line ''[DONE]'' @ data_line (envelope ''X'')]) = [] \<and>
   assistantContent
     (assemble canonical_delta [data_line ''[DONE]'', data_line (envelope ''X'')]) = ''X''"
  by (simp add: assembler_defs)

section \<open>Request failure\<close>



lemma decimal_nonempty: "decimal n \<noteq> []"
  by (subst decimal.simps) simp




text \<open>
  The body \<^verbatim>\<open>null\<close>: the read of \<^verbatim>\<open>err.error\<close> throws before any message is built.
\<close>

lemma null_body_throws:
  assumes "status resp < 200 \<or> 299 < status resp" and "json resp = Resolves JNull"
  shows "handleSend_failure resp = Some NullPropertyRead"
    and "handleVideoAction_failure resp = Some NullPropertyRead"
  using assms
  by (auto simp: ok_def handleSend_failure_def handleVideoAction_failure_def throwError_def
        errorOf_def)

section \<open>The player never throws\<close>

lemma speakSlide_total: "\<exists>s'. speakSlide slides now index s = Inr s'"
  by (auto simp: speakSlide_def Let_def split: option.splits)

lemma speakSlide_fields:
  assumes "speakSlide slides now index s = Inr s'"
  shows "currentSlide s' = currentSlide s" "isPlaying s' = isPlaying s" "isMuted s' = isMuted s"
    "slideProgress s' = 0" "startTimeRef s' = now" "intervalRef s' \<noteq> None"
    "timeouts s' = timeouts s" "showControls s' = showControls s" "controlsTimerRef s' = controlsTimerRef s"
  using assms by (auto simp: speakSlide_def stopSpeech_def Let_def split: option.splits if_splits)

lemma effects_total: "\<exists>s'. effects slides now old new = Inr s'"
  using speakSlide_total [of slides now "currentSlide new" new]
  by (auto simp: effects_def Let_def)

lemma goToSlide_total: "\<exists>s'. goToSlide slides now index s = Inr s'"
  using speakSlide_total by (auto simp: goToSlide_def Let_def)

lemma handle_total: "\<exists>s'. handle slides now ev s = Inr s'"
  by (cases ev) (auto simp: handleKey_def goToSlide_total)

lemma step_total: "\<exists>s'. step slides now ev s = Inr s'"
  using handle_total [of slides now ev s] effects_total by (auto simp: step_def)

lemma run_total: "\<exists>s'. run slides history s = Inr s'"
proof (induction history arbitrary: s)
  case Nil
  show ?case by simp
next
  case (Cons a history)
  obtain now ev where a: "a = (now, ev)" by (cases a)
  from step_total obtain s1 where "step slides now ev s = Inr s1" by blast
  with Cons [of s1] a show ?case by simp
qed

lemma effects_same: "effects slides now s s = Inr s"
  by (simp add: effects_def)

lemmas player_defs =
  step_def effects_def handlePlay_def handlePause_def handleStop_def toggleMute_def
  speakSlide_def stopSpeech_def slideAt_def tick_def progressAt_def advance_def onend_def
  onerror_def resetControlsTimer_def goToSlide_def handleKey_def wordCount_def isSpace_def

text \<open>
  Claim C8. \<^verbatim>\<open>goToSlide(i)\<close> with \<open>i < 0\<close> or \<open>i \<ge> slideCount\<close> leaves the whole state
  as it is: the five state cells, the interval, the utterance in flight and the pending
  timers. With \<open>i\<close> in range it makes \<open>i\<close> the current slide and sets the progress to 0.
\<close>

theorem goToSlide_bounds:
  "(index < 0 \<or> int (length slides) \<le> index \<longrightarrow> step slides now (GoTo index) s = Inr s) \<and>
   (0 \<le> index \<and> index < int (length slides) \<longrightarrow>
      (\<exists>s'. step slides now (GoTo index) s = Inr s' \<and> currentSlide s' = index \<and> slideProgress s' = 0))"
proof (intro conjI impI)
  assume "index < 0 \<or> int (length slides) \<le> index"
  then show "step slides now (GoTo index) s = Inr s"
    by (auto simp: step_def goToSlide_def effects_same)
next
  assume inr: "0 \<le> index \<and> index < int (length slides)"
  let ?s1 = "(stopSpeech s)\<lparr>currentSlide := index\<rparr>"
  obtain s2 where h: "goToSlide slides now index s = Inr s2"
    using goToSlide_total by blast
  have s2: "currentSlide s2 = index \<and> slideProgress s2 = 0"
  proof (cases "isPlaying s")
    case True
    with h inr have "speakSlide slides now index ?s1 = Inr s2" by (simp add: goToSlide_def)
    from speakSlide_fields(1,4) [OF this] show ?thesis by simp
  next
    case False
    with h inr have "s2 = ?s1" by (simp add: goToSlide_def)
    then show ?thesis by (simp add: stopSpeech_def)
  qed
  obtain s3 where e: "effects slides now s s2 = Inr s3" using effects_total by blast
  have "currentSlide s3 = index \<and> slideProgress s3 = 0"
  proof (cases "(currentSlide s2 \<noteq> currentSlide s \<or> isPlaying s2 \<noteq> isPlaying s
                   \<or> isMuted s2 \<noteq> isMuted s) \<and> isPlaying s2")
    case True
    then obtain s4 where sp: "speakSlide slides now (currentSlide s2) s2 = Inr s4"
      using speakSlide_total by blast
    from speakSlide_fields(1,4) [OF sp] s2 e True sp show ?thesis
      by (auto simp: effects_def resetControlsTimer_def split: if_splits)
  next
    case False
    with e s2 show ?thesis by (auto simp: effects_def resetControlsTimer_def split: if_splits)
  qed
  with h e show "\<exists>s'. step slides now (GoTo index) s = Inr s' \<and> currentSlide s' = index \<and> slideProgress s' = 0"
    by (simp add: step_def)
qed

theorem goToSlide_bounds_witness:
  "step deck3 0 (GoTo 3) initial = Inr initial \<and> step deck3 0 (GoTo (- 1)) initial = Inr initial \<and>
   (\<exists>s'. step deck3 0 (GoTo 2) initial = Inr s' \<and> currentSlide s' = 2 \<and> slideProgress s' = 0)"
  using goToSlide_bounds [of 3 deck3 0 initial] goToSlide_bounds [of "- 1" deck3 0 initial]
    goToSlide_bounds [of 2 deck3 0 initial]
  by (simp add: deck3_def)

text \<open>
  Claim C10. With no slides, the lookup \<^verbatim>\<open>slides[i]\<close> is undefined for every \<open>i\<close>, the
  component renders nothing, \<^verbatim>\<open>goToSlide\<close> changes nothing, and every history of events
  runs to the end without an exception.
\<close>

theorem empty_presentation_safe:
  "slideAt [] index = None \<and> render [] s = None \<and> step [] now (GoTo index) s = Inr s \<and>
   (\<exists>s'. run [] history s = Inr s')"
  using run_total [of "[]" history s]
  by (auto simp: slideAt_def render_def step_def goToSlide_def effects_same)

section \<open>Slide completion\<close>

text \<open>
  Claim C2, as stated, fails at the end of the presentation. Scenario C of the
  specification (three slides, muted, play): the first two fallback timers advance the
  slide; when the third one elapses the player stops with progress 0, but the current slide
  stays the last one, index 2, and is not reset to 0.
\<close>

theorem last_slide_stays_current:
  "run deck3 [(0, ToggleMute), (0, Play), (4000, Tick), (4300, Advance 0), (8300, Tick),
              (8600, Advance 1)] initial = Inr fallback_last \<and>
   run deck3 [(12600, Tick), (12900, Advance 2)] fallback_last =
     Inr \<lparr>currentSlide = 2, isPlaying = False, isMuted = True, slideProgress = 0,
          showControls = True, intervalRef = None, startTimeRef = 8600,
          durationRef = 4000, controlsTimerRef = False, utterance = None, timeouts = []\<rparr>"
  by (simp add: deck3_def initial_def fallback_last_def player_defs)

lemma step_Advance:
  assumes "index \<in> set (timeouts s)" and "isPlaying s" and "currentSlide s = index"
  shows "\<exists>s'. step slides t2 (Advance index) s = Inr s' \<and> slideProgress s' = 0 \<and>
     (if index < int (length slides) - 1
      then currentSlide s' = index + 1 \<and> isPlaying s' \<and> intervalRef s' \<noteq> None \<and> startTimeRef s' = t2
      else currentSlide s' = index \<and> \<not> isPlaying s' \<and> intervalRef s' = intervalRef s)"
proof (cases "index < int (length slides) - 1")
  case True
  let ?a = "s\<lparr>timeouts := remove1 index (timeouts s), currentSlide := index + 1\<rparr>"
  obtain s4 where sp: "speakSlide slides t2 (index + 1) ?a = Inr s4"
    using speakSlide_total by blast
  have "step slides t2 (Advance index) s = Inr s4"
    using assms True speakSlide_fields(2) [OF sp] sp
    by (simp add: step_def advance_def effects_def)
  with speakSlide_fields [OF sp] assms True show ?thesis by simp
next
  case False
  with assms show ?thesis
    by (simp add: step_def advance_def effects_def resetControlsTimer_def)
qed

text \<open>
  Claim C2, amended. While playing slide \<open>index\<close>, let the narration end or, when muted,
  let the interval fire once the fallback duration has elapsed, and let the timeout that
  this schedules fire. If \<open>index < slideCount - 1\<close> the player is then on slide
  \<open>index + 1\<close>, still playing, with progress 0 and a new interval started at that time.
  Otherwise it is not playing, progress is 0, no interval is live, and the current slide is
  still \<open>index\<close>.
\<close>

theorem slide_completion:
  assumes "isPlaying s" and "currentSlide s = index"
    and "(ev = NarrationEnd \<and> utterance s = Some index) \<or>
         (ev = Tick \<and> intervalRef s = Some (Fallback index) \<and> 0 < durationRef s \<and>
          durationRef s \<le> of_int (t1 - startTimeRef s))"
  shows "\<exists>s'. run slides [(t1, ev), (t2, Advance index)] s = Inr s' \<and> slideProgress s' = 0 \<and>
     (if index < int (length slides) - 1
      then currentSlide s' = index + 1 \<and> isPlaying s' \<and> intervalRef s' \<noteq> None \<and> startTimeRef s' = t2
      else currentSlide s' = index \<and> \<not> isPlaying s' \<and> intervalRef s' = None)"
proof -
  from assms(3) obtain s1 where first: "step slides t1 ev s = Inr s1"
    and s1: "index \<in> set (timeouts s1)" "isPlaying s1" "currentSlide s1 = index" "intervalRef s1 = None"
  proof
    assume a: "ev = NarrationEnd \<and> utterance s = Some index"
    show ?thesis
      by (rule that [of "onend index s"]) (use a assms(1,2) in \<open>simp_all add: step_def effects_def onend_def\<close>)
  next
    assume a: "ev = Tick \<and> intervalRef s = Some (Fallback index) \<and> 0 < durationRef s \<and>
          durationRef s \<le> of_int (t1 - startTimeRef s)"
    then have p: "progressAt t1 s = 1"
      by (simp add: progressAt_def min_def)
    show ?thesis
      by (rule that [of "s\<lparr>slideProgress := 1, intervalRef := None, timeouts := timeouts s @ [index]\<rparr>"])
         (use a p assms(1,2) in \<open>simp_all add: step_def effects_def tick_def\<close>)
  qed
  from step_Advance [OF s1(1,2,3), of slides t2] first s1(4) show ?thesis
    by (auto split: if_splits)
qed

theorem slide_completion_witness:
  "isPlaying fallback_last \<and> currentSlide fallback_last = 2 \<and>
   intervalRef fallback_last = Some (Fallback 2) \<and>
   (\<exists>s'. run deck3 [(12600, Tick), (12900, Advance 2)] fallback_last = Inr s' \<and>
      slideProgress s' = 0 \<and> currentSlide s' = 2 \<and> \<not> isPlaying s' \<and> intervalRef s' = None) \<and>
   isPlaying mid_narration \<and> currentSlide mid_narration = 0 \<and>
   utterance mid_narration = Some 0 \<and>
   (\<exists>s'. run deck3 [(2000, NarrationEnd), (2500, Advance 0)] mid_narration = Inr s' \<and>
      slideProgress s' = 0 \<and> currentSlide s' = 1 \<and> isPlaying s' \<and> intervalRef s' \<noteq> None \<and>
      startTimeRef s' = 2500)"
  using slide_completion [of fallback_last 2 Tick 12600 deck3 12900]
    slide_completion [of mid_narration 0 NarrationEnd 2000 deck3 2500]
  by (simp add: fallback_last_def mid_narration_def deck3_def)

section \<open>Pause and play\<close>

text \<open>
  Claim C3, as stated, fails on the second half. Half way through the narration of the
  first slide, pause keeps the progress at 1/2; the play that follows at time 2000 sets it
  to 0, counts elapsed time from 2000, and hands the engine a new utterance.
\<close>

theorem play_after_pause_starts_over:
  "run deck3 [(0, Play), (1500, Tick), (1500, Pause)] initial =
     Inr \<lparr>currentSlide = 0, isPlaying = False, isMuted = False, slideProgress = 1 / 2,
          showControls = True, intervalRef = None, startTimeRef = 0,
          durationRef = 3000, controlsTimerRef = False, utterance = None, timeouts = []\<rparr> \<and>
   run deck3 [(0, Play), (1500, Tick), (1500, Pause), (2000, Play)] initial =
     Inr \<lparr>currentSlide = 0, isPlaying = True, isMuted = False, slideProgress = 0,
          showControls = True, intervalRef = Some Narration, startTimeRef = 2000,
          durationRef = 3000, controlsTimerRef = True, utterance = Some 0, timeouts = []\<rparr>"
  by (simp add: deck3_def initial_def player_defs)

text \<open>
  Claim C3, amended. Pause while playing keeps the progress and the current slide, stops
  playing and cancels the interval and the utterance. The play that follows starts the
  current slide over: progress is 0, elapsed time counts from the time of that play, and a
  new interval is live. On the audible path (not muted, the current slide exists) a new
  utterance for the current slide is handed to the engine, so the narration is spoken from
  its beginning, and the duration is estimated anew from the slide's narration. When muted
  (or without a current slide) no utterance is created and the fallback timer of 4000 ms
  starts over.
\<close>

theorem pause_then_play:
  assumes "isPlaying s"
  shows "\<exists>s1 s2. step slides t1 Pause s = Inr s1 \<and> \<not> isPlaying s1 \<and>
           slideProgress s1 = slideProgress s \<and> currentSlide s1 = currentSlide s \<and>
           intervalRef s1 = None \<and> utterance s1 = None \<and>
           step slides t2 Play s1 = Inr s2 \<and> isPlaying s2 \<and> currentSlide s2 = currentSlide s \<and>
           slideProgress s2 = 0 \<and> startTimeRef s2 = t2 \<and> progressAt t2 s2 = 0 \<and>
           intervalRef s2 \<noteq> None \<and>
           (\<not> isMuted s \<and> 0 \<le> currentSlide s \<and> currentSlide s < int (length slides) \<longrightarrow>
              utterance s2 = Some (currentSlide s) \<and> intervalRef s2 = Some Narration \<and>
              durationRef s2 =
                max (of_nat (wordCount (narration (slides ! nat (currentSlide s)))) / 140 * 60 * 1000)
                  3000) \<and>
           (isMuted s \<or> currentSlide s < 0 \<or> int (length slides) \<le> currentSlide s \<longrightarrow>
              utterance s2 = None \<and> intervalRef s2 = Some (Fallback (currentSlide s)) \<and>
              durationRef s2 = 4000)"
proof -
  let ?s1 = "resetControlsTimer (handlePause s)"
  have p: "step slides t1 Pause s = Inr ?s1"
    using assms by (simp add: step_def effects_def handlePause_def)
  obtain s4 where sp: "speakSlide slides t2 (currentSlide s) (handlePlay ?s1) = Inr s4"
    using speakSlide_total by blast
  have q: "step slides t2 Play ?s1 = Inr (resetControlsTimer s4)"
    using sp speakSlide_fields(2) [OF sp]
    by (simp add: step_def effects_def handlePause_def handlePlay_def resetControlsTimer_def)
  have audible: "utterance s4 = Some (currentSlide s) \<and> intervalRef s4 = Some Narration \<and>
      durationRef s4 =
        max (of_nat (wordCount (narration (slides ! nat (currentSlide s)))) / 140 * 60 * 1000) 3000"
    if "\<not> isMuted s \<and> 0 \<le> currentSlide s \<and> currentSlide s < int (length slides)"
    using sp that
    by (auto simp: speakSlide_def stopSpeech_def slideAt_def handlePause_def handlePlay_def
          resetControlsTimer_def Let_def)
  have silent: "utterance s4 = None \<and> intervalRef s4 = Some (Fallback (currentSlide s)) \<and>
      durationRef s4 = 4000"
    if "isMuted s \<or> currentSlide s < 0 \<or> int (length slides) \<le> currentSlide s"
    using sp that
    by (auto simp: speakSlide_def stopSpeech_def slideAt_def handlePause_def handlePlay_def
          resetControlsTimer_def Let_def)
  from speakSlide_fields [OF sp] p q audible silent show ?thesis
    by (simp add: handlePause_def handlePlay_def resetControlsTimer_def progressAt_def)
qed

theorem pause_then_play_witness:
  "isPlaying mid_narration \<and> \<not> isMuted mid_narration \<and> 0 \<le> currentSlide mid_narration \<and>
   currentSlide mid_narration < int (length deck3) \<and>
   (\<exists>s1 s2. step deck3 1500 Pause mid_narration = Inr s1 \<and> slideProgress s1 = 1 / 2 \<and>
      utterance s1 = None \<and>
      step deck3 2000 Play s1 = Inr s2 \<and> slideProgress s2 = 0 \<and> startTimeRef s2 = 2000 \<and>
      utterance s2 = Some 0 \<and> intervalRef s2 = Some Narration \<and> durationRef s2 = 3000) \<and>
   isPlaying fallback_last \<and> isMuted fallback_last \<and>
   (\<exists>s1 s2. step deck3 9000 Pause fallback_last = Inr s1 \<and>
      step deck3 9500 Play s1 = Inr s2 \<and> slideProgress s2 = 0 \<and> startTimeRef s2 = 9500 \<and>
      utterance s2 = None \<and> intervalRef s2 = Some (Fallback 2) \<and> durationRef s2 = 4000)"
proof -
  have audible: "isPlaying mid_narration \<and> \<not> isMuted mid_narration \<and>
      0 \<le> currentSlide mid_narration \<and> currentSlide mid_narration < int (length deck3)"
    by (simp add: mid_narration_def deck3_def)
  have len: "max (of_nat (wordCount (narration (deck3 ! nat (currentSlide mid_narration)))) / 140 * 60 * 1000)
                  (3000 :: rat) = 3000"
    by (simp add: mid_narration_def deck3_def wordCount_def isSpace_def)
  have muted: "isPlaying fallback_last \<and> isMuted fallback_last"
    by (simp add: fallback_last_def)
  from pause_then_play [of mid_narration deck3 1500 2000] audible len
  have "\<exists>s1 s2. step deck3 1500 Pause mid_narration = Inr s1 \<and> slideProgress s1 = 1 / 2 \<and>
      utterance s1 = None \<and>
      step deck3 2000 Play s1 = Inr s2 \<and> slideProgress s2 = 0 \<and> startTimeRef s2 = 2000 \<and>
      utterance s2 = Some 0 \<and> intervalRef s2 = Some Narration \<and> durationRef s2 = 3000"
    by (auto simp: mid_narration_def)
  moreover from pause_then_play [of fallback_last deck3 9000 9500] muted
  have "\<exists>s1 s2. step deck3 9000 Pause fallback_last = Inr s1 \<and>
      step deck3 9500 Play s1 = Inr s2 \<and> slideProgress s2 = 0 \<and> startTimeRef s2 = 9500 \<and>
      utterance s2 = None \<and> intervalRef s2 = Some (Fallback 2) \<and> durationRef s2 = 4000"
    by (auto simp: fallback_last_def)
  ultimately show ?thesis using audible muted by blast
qed

section \<open>Narration errors\<close>

text \<open>
  Claim C4, as stated, fails: an error is not handled like the end of the narration. On
  the first of three slides, an error one second into the narration leaves the player not
  playing on slide 0; the end of the narration at the same moment leads to slide 1, playing.
\<close>

theorem narration_error_unlike_end:
  "run deck3 [(0, Play), (1000, NarrationError)] initial =
     Inr \<lparr>currentSlide = 0, isPlaying = False, isMuted = False, slideProgress = 0,
          showControls = True, intervalRef = None, startTimeRef = 0,
          durationRef = 3000, controlsTimerRef = False, utterance = None, timeouts = []\<rparr> \<and>
   run deck3 [(0, Play), (1000, NarrationEnd), (1500, Advance 0)] initial =
     Inr \<lparr>currentSlide = 1, isPlaying = True, isMuted = False, slideProgress = 0,
          showControls = True, intervalRef = Some Narration, startTimeRef = 1500,
          durationRef = 3000, controlsTimerRef = True, utterance = Some 1, timeouts = []\<rparr>"
  by (simp add: deck3_def initial_def player_defs)

text \<open>
  Claim C4, amended. When the utterance in flight reports an error, no exception is
  raised; the player stops playing and cancels the interval, and it stays on the current
  slide with the progress it had, without scheduling an advance.
\<close>

theorem narration_error_stops:
  assumes "utterance s = Some index"
  shows "\<exists>s'. step slides now NarrationError s = Inr s' \<and> \<not> isPlaying s' \<and>
           currentSlide s' = currentSlide s \<and> slideProgress s' = slideProgress s \<and>
           timeouts s' = timeouts s \<and> intervalRef s' = None \<and> utterance s' = None"
  using assms by (simp add: step_def effects_def onerror_def resetControlsTimer_def)

theorem narration_error_stops_witness:
  "utterance mid_narration = Some 0 \<and>
   (\<exists>s'. step deck3 1500 NarrationError mid_narration = Inr s' \<and> \<not> isPlaying s' \<and>
      currentSlide s' = 0 \<and> slideProgress s' = 1 / 2 \<and> timeouts s' = [])"
  using narration_error_stops [of mid_narration 0 deck3 1500]
  by (auto simp add: mid_narration_def)

end
